theory Spec2Isabelle
  imports Complex_Main
begin

section \<open>Goldbach mirror: sieve, scan loop, singular series, discriminant, valuation\<close>

text \<open>
  A shallow embedding of \<^verbatim>\<open>goldbach_scanner_v2.py\<close> and \<^verbatim>\<open>verify_discriminant.py\<close>.
  Python's unbounded integers are \<open>int\<close> (or \<open>nat\<close> where the source only ever holds an
  index or a value it has already compared to be positive), a \<^verbatim>\<open>bytearray\<close> of 0/1 flags
  is a \<open>nat list\<close>, an exception is the \<open>Inl\<close> branch of a sum, and a \<^verbatim>\<open>while\<close> loop
  whose termination depends on its arguments is a \<^theory_text>\<open>partial_function\<close> into \<open>option\<close>,
  where \<open>None\<close> stands for a loop that never returns.
\<close>

subsection \<open>Exceptions and indexed access\<close>

datatype py_error = IndexError | ZeroDivisionError

text \<open>\<^verbatim>\<open>xs[i]\<close> and \<^verbatim>\<open>xs[i] = v\<close> for a non-negative index: out of range raises.\<close>

definition getitem :: "nat list \<Rightarrow> nat \<Rightarrow> py_error + nat" where
  "getitem xs i = (if i < length xs then Inr (xs ! i) else Inl IndexError)"

definition setitem :: "nat list \<Rightarrow> nat \<Rightarrow> nat \<Rightarrow> py_error + nat list" where
  "setitem xs i v = (if i < length xs then Inr (xs[i := v]) else Inl IndexError)"

subsection \<open>Orbit classifier\<close>

text \<open>
  \<^verbatim>\<open>
  def classify_orbit(n):
      if n % 6 == 0:   return "Resonant (mod 6)"
      elif n % 3 == 0: return "Stable (mod 3)"
      else:            return "Generic"
  \<close>
\<close>

definition classify_orbit :: "int \<Rightarrow> string" where
  "classify_orbit n =
     (if n mod 6 = 0 then ''Resonant (mod 6)''
      else if n mod 3 = 0 then ''Stable (mod 3)''
      else ''Generic'')"

subsection \<open>Discriminant engine\<close>

text \<open>
  \<^verbatim>\<open>
  def compute_discriminant(roots):
      disc = 1
      n = len(roots)
      for i in range(n):
          for j in range(i + 1, n):
              disc *= (roots[i] - roots[j]) ** 2
      return disc
  \<close>
  Both loops are folds over their index ranges with \<open>disc\<close> as the accumulator; every
  index read is below \<open>n\<close>.
\<close>

definition compute_discriminant :: "int list \<Rightarrow> int" where
  "compute_discriminant roots =
     (let n = length roots in
      fold (\<lambda>i disc. fold (\<lambda>j disc. disc * (roots ! i - roots ! j) ^ 2) [i + 1..<n] disc)
        [0..<n] 1)"

text \<open>The root set the harness builds for a test case \<open>(N, p)\<close>: \<^verbatim>\<open>[0, p, -p, q, -q]\<close>
  with \<^verbatim>\<open>q = 2 * N - p\<close>.\<close>

definition mirror_roots :: "int \<Rightarrow> int \<Rightarrow> int list" where
  "mirror_roots N p = (let q = 2 * N - p in [0, p, - p, q, - q])"

subsection \<open>Valuation utility\<close>

text \<open>
  \<^verbatim>\<open>
  def ord_p(n, p):
      if n == 0:
          return float('inf')
      v = 0
      while n % p == 0:
          v += 1
          n //= p
      return v
  \<close>
  The result is a count or the infinite sentinel. Python's \<^verbatim>\<open>%\<close> and \<^verbatim>\<open>//\<close> on integers
  are floor division, as \<open>mod\<close> and \<open>div\<close> on \<open>int\<close> are; \<^verbatim>\<open>n % 0\<close> raises. The
  \<^verbatim>\<open>while\<close> loop need not end (\<open>p = 1\<close>), so it is a partial function: \<open>None\<close> is a loop
  that runs forever.
\<close>

datatype valuation = Finite nat | Infinite

partial_function (option) ord_loop :: "int \<Rightarrow> int \<Rightarrow> nat \<Rightarrow> (py_error + nat) option" where
  "ord_loop n p v =
     (if p = 0 then Some (Inl ZeroDivisionError)
      else if n mod p = 0 then ord_loop (n div p) p (v + 1)
      else Some (Inr v))"

declare ord_loop.simps [code]

definition ord_p :: "int \<Rightarrow> int \<Rightarrow> (py_error + valuation) option" where
  "ord_p n p =
     (if n = 0 then Some (Inr Infinite)
      else case ord_loop n p 0 of
             None \<Rightarrow> None
           | Some (Inl e) \<Rightarrow> Some (Inl e)
           | Some (Inr v) \<Rightarrow> Some (Inr (Finite v)))"

subsection \<open>Primality, as the claims use it\<close>

text \<open>The mathematical notion the sieve and the valuation identity are measured against:
  a number from 2 on with no divisor strictly between 1 and itself.\<close>

definition prime_nat :: "nat \<Rightarrow> bool" where
  "prime_nat n = (2 \<le> n \<and> (\<forall>d \<in> {2..<n}. \<not> d dvd n))"

section \<open>Properties\<close>

subsection \<open>Orbit classifier\<close>

text \<open>
  Claim C9. For every even positive \<open>n\<close>, \<open>classify_orbit n\<close> is \<open>Resonant (mod 6)\<close> or
  \<open>Generic\<close> and never \<open>Stable (mod 3)\<close>: an even number divisible by 3 is divisible by 6,
  so the middle branch is unreachable on the even numbers the scan supplies.
\<close>

theorem classify_orbit_even:
  assumes "0 < n" and "even n"
  shows "(classify_orbit n = ''Resonant (mod 6)'' \<or> classify_orbit n = ''Generic'')
         \<and> classify_orbit n \<noteq> ''Stable (mod 3)''"
proof -
  have "n mod 3 = 0 \<Longrightarrow> n mod 6 = 0"
    using assms(2) by presburger
  then show ?thesis
    by (auto simp: classify_orbit_def)
qed

theorem classify_orbit_even_witness:
  "(0::int) < 10000002 \<and> even (10000002::int)
   \<and> classify_orbit 10000002 = ''Resonant (mod 6)''
   \<and> classify_orbit 10000002 \<noteq> ''Stable (mod 3)''"
  using classify_orbit_even [of 10000002] by (simp add: classify_orbit_def)

subsection \<open>Discriminant engine\<close>

text \<open>The inner and the outer loop only ever multiply the accumulator by squares.\<close>

lemma fold_mult_sq_nonneg:
  "(0::int) \<le> d \<Longrightarrow> 0 \<le> fold (\<lambda>j disc. disc * (f j) ^ 2) js d"
  by (induction js arbitrary: d) simp_all

lemma fold_outer_nonneg:
  "(0::int) \<le> d \<Longrightarrow>
   0 \<le> fold (\<lambda>i disc. fold (\<lambda>j disc. disc * (f i j) ^ 2) (g i) disc) ks d"
  by (induction ks arbitrary: d) (simp_all add: fold_mult_sq_nonneg)

text \<open>
  Claim C10. For every finite list of integer roots, the empty list included,
  \<open>compute_discriminant\<close> returns a non-negative integer: every factor of the product
  is a square.
\<close>

theorem compute_discriminant_nonneg: "0 \<le> compute_discriminant roots"
  unfolding compute_discriminant_def Let_def
  by (rule fold_outer_nonneg) simp

text \<open>On five roots the two loops visit the ten pairs \<open>i < j\<close> in this order.\<close>

lemma compute_discriminant_five:
  "compute_discriminant [a, b, c, d, e] =
     (a - b)^2 * (a - c)^2 * (a - d)^2 * (a - e)^2
     * (b - c)^2 * (b - d)^2 * (b - e)^2
     * (c - d)^2 * (c - e)^2
     * (d - e)^2"
  by (simp add: compute_discriminant_def upt_rec)

lemma discriminant_mirror_roots:
  "compute_discriminant (mirror_roots N p) =
     2 ^ 12 * p ^ 6 * (2 * N - p) ^ 6 * (N - p) ^ 4 * N ^ 4"
proof -
  define q where "q = 2 * N - p"
  have e1: "p - q = 2 * (p - N)" and e2: "p + q = 2 * N"
    by (simp_all add: q_def)
  have h1: "(p - q)^2 = 4 * (N - p)^2"
    unfolding e1 by (simp add: power2_eq_square algebra_simps)
  have h2: "(p + q)^2 = 4 * N^2"
    unfolding e2 by (simp add: power_mult_distrib)
  have "compute_discriminant (mirror_roots N p) =
     (0 - p)^2 * (0 - - p)^2 * (0 - q)^2 * (0 - - q)^2
     * (p - - p)^2 * (p - q)^2 * (p - - q)^2
     * (- p - q)^2 * (- p - - q)^2
     * (q - - q)^2"
    unfolding mirror_roots_def Let_def q_def [symmetric] by (rule compute_discriminant_five)
  also have "\<dots> = p^2 * p^2 * q^2 * q^2 * (2 * p)^2 * (p - q)^2 * (p + q)^2
                     * (p + q)^2 * (p - q)^2 * (2 * q)^2"
    by (simp add: power2_commute [of q p] power2_eq_square algebra_simps)
  also have "\<dots> = 4096 * (p^2)^3 * (q^2)^3 * ((N - p)^2)^2 * (N^2)^2"
    unfolding h1 h2 by (simp add: power_mult_distrib power2_eq_square power3_eq_cube)
  also have "\<dots> = 2^12 * p^6 * q^6 * (N - p)^4 * N^4"
    by (simp add: power_mult [symmetric])
  finally show ?thesis by (simp add: q_def)
qed

text \<open>
  Claim C1. For every \<open>N \<ge> 1\<close> and every \<open>p\<close> with \<open>0 < p < 2N\<close>, with \<open>q = 2N - p\<close>, the
  discriminant of the roots \<open>0, p, -p, q, -q\<close> (the product of the squared differences
  over the pairs of indices \<open>i < j\<close>) is exactly \<open>2^12 p^6 q^6 (N - p)^4 N^4\<close>.
\<close>

theorem discriminant_closed_form:
  assumes "1 \<le> N" and "0 < p" and "p < 2 * N"
  shows "compute_discriminant [0, p, - p, 2 * N - p, - (2 * N - p)] =
           2 ^ 12 * p ^ 6 * (2 * N - p) ^ 6 * (N - p) ^ 4 * N ^ 4"
  using discriminant_mirror_roots [of N p] by (simp add: mirror_roots_def)

theorem discriminant_closed_form_witness:
  "(1::int) \<le> 15 \<and> (0::int) < 7 \<and> (7::int) < 2 * 15
   \<and> compute_discriminant [0, 7, - 7, 23, - 23] = 2 ^ 12 * 7 ^ 6 * 23 ^ 6 * 8 ^ 4 * 15 ^ 4"
  using discriminant_closed_form [of 15 7] by simp

subsection \<open>Valuation utility\<close>

lemma div_decreases:
  fixes n p :: int
  assumes "2 \<le> p" "n \<noteq> 0" "n mod p = 0"
  shows "\<bar>n div p\<bar> < \<bar>n\<bar>" "n div p \<noteq> 0"
proof -
  from assms(3) have "p dvd n" by (simp add: mod_eq_0_iff_dvd)
  then obtain k where k: "n = p * k" by (auto elim: dvdE)
  with assms have k0: "k \<noteq> 0" by auto
  have "n div p = k" using k assms(1) by simp
  moreover have "\<bar>k\<bar> < \<bar>p * k\<bar>" using assms(1) k0 by (simp add: abs_mult)
  ultimately show "\<bar>n div p\<bar> < \<bar>n\<bar>" "n div p \<noteq> 0" using k k0 by auto
qed

text \<open>The loop returns from every non-zero start: induction on the absolute value of the
  cofactor, which each iteration makes smaller.\<close>

lemma ord_loop_returns:
  assumes "2 \<le> p"
  shows "n \<noteq> 0 \<Longrightarrow> \<exists>w. ord_loop n p v = Some (Inr w)"
proof (induction "nat \<bar>n\<bar>" arbitrary: n v rule: less_induct)
  case less
  show ?case
  proof (cases "n mod p = 0")
    case True
    have "nat \<bar>n div p\<bar> < nat \<bar>n\<bar>" "n div p \<noteq> 0"
      using div_decreases [OF assms less.prems True] by auto
    then obtain w where "ord_loop (n div p) p (v + 1) = Some (Inr w)"
      using less.hyps by blast
    then show ?thesis using True assms by (subst ord_loop.simps) auto
  next
    case False
    then show ?thesis using assms by (subst ord_loop.simps) auto
  qed
qed

text \<open>
  Claim C8. \<open>ord_p\<close> terminates for every integer value and every \<open>p \<ge> 2\<close>: on 0 it
  returns the infinite sentinel at once; on a non-zero value the loop returns a
  natural number, and an iteration (taken when \<open>p\<close> divides the cofactor) leaves a
  cofactor that is non-zero and strictly smaller in absolute value.
\<close>

theorem ord_p_terminates:
  fixes n p :: int
  assumes "2 \<le> p"
  shows "ord_p 0 p = Some (Inr Infinite)
         \<and> (n \<noteq> 0 \<longrightarrow> (\<exists>v. ord_p n p = Some (Inr (Finite v)))
              \<and> (n mod p = 0 \<longrightarrow> \<bar>n div p\<bar> < \<bar>n\<bar> \<and> n div p \<noteq> 0))"
proof (intro conjI impI)
  show "ord_p 0 p = Some (Inr Infinite)" by (simp add: ord_p_def)
next
  assume "n \<noteq> 0"
  then obtain w where "ord_loop n p 0 = Some (Inr w)"
    using ord_loop_returns [OF assms] by blast
  then show "\<exists>v. ord_p n p = Some (Inr (Finite v))"
    using \<open>n \<noteq> 0\<close> by (simp add: ord_p_def)
next
  assume n: "n \<noteq> 0" "n mod p = 0"
  show "\<bar>n div p\<bar> < \<bar>n\<bar>" by (rule div_decreases(1) [OF assms n])
  show "n div p \<noteq> 0" by (rule div_decreases(2) [OF assms n])
qed

theorem ord_p_terminates_witness:
  "(2::int) \<le> 7 \<and> ord_p 0 7 = Some (Inr Infinite) \<and> (49::int) \<noteq> 0
   \<and> ord_p 49 7 = Some (Inr (Finite 2)) \<and> (49::int) mod 7 = 0
   \<and> \<bar>49 div 7\<bar> < \<bar>49::int\<bar>"
proof -
  have v: "ord_p 49 7 = Some (Inr (Finite 2))" by code_simp
  have "(2::int) \<le> 7" by simp
  from ord_p_terminates [OF this, of 49] v show ?thesis by simp
qed

text \<open>What the loop counts: the exponent of \<open>p\<close> in a value written as a power of
  \<open>p\<close> times a cofactor that \<open>p\<close> does not divide; every non-zero value can be
  written so.\<close>

lemma ord_loop_power:
  assumes "2 \<le> p" "\<not> p dvd m"
  shows "ord_loop (p ^ k * m) p v = Some (Inr (v + k))"
proof (induction k arbitrary: v)
  case 0
  then show ?case using assms by (subst ord_loop.simps) (auto simp: mod_eq_0_iff_dvd)
next
  case (Suc k)
  have "(p ^ Suc k * m) div p = p ^ k * m" using assms(1) by (simp add: mult.assoc)
  then show ?case using assms(1) Suc [of "v + 1"] by (subst ord_loop.simps) simp
qed

lemma power_decomp:
  fixes n p :: int
  assumes "2 \<le> p"
  shows "n \<noteq> 0 \<Longrightarrow> \<exists>k m. n = p ^ k * m \<and> \<not> p dvd m"
proof (induction "nat \<bar>n\<bar>" arbitrary: n rule: less_induct)
  case less
  show ?case
  proof (cases "p dvd n")
    case True
    then have m0: "n mod p = 0" by simp
    have "nat \<bar>n div p\<bar> < nat \<bar>n\<bar>" "n div p \<noteq> 0"
      using div_decreases [OF assms less.prems m0] by auto
    then obtain k m where km: "n div p = p ^ k * m" "\<not> p dvd m"
      using less.hyps by blast
    note km(1)
    moreover have "n = p * (n div p)" using True by simp
    ultimately have "n = p ^ Suc k * m" by (simp add: mult.assoc)
    then show ?thesis using \<open>\<not> p dvd m\<close> by blast
  next
    case False
    then have "n = p ^ 0 * n" by simp
    then show ?thesis using False by blast
  qed
qed

text \<open>A prime that does not divide a number is coprime to it, and then divides no
  product of such numbers.\<close>

lemma prime_nat_coprime:
  assumes "prime_nat r" "\<not> int r dvd a"
  shows "coprime (int r) a"
proof -
  define g where "g = nat (gcd (int r) a)"
  have g: "int g = gcd (int r) a" by (simp add: g_def)
  have "int g dvd int r" unfolding g by simp
  then have gr: "g dvd r" by simp
  have "r \<noteq> 0" using assms(1) by (simp add: prime_nat_def)
  then have "g \<le> r" "g \<noteq> 0" using gr by (auto intro: dvd_imp_le elim: dvdE)
  have "g \<noteq> r"
  proof
    assume "g = r"
    then have "int r dvd a" using g by (metis gcd_dvd2)
    with assms(2) show False by simp
  qed
  have "g = 1"
  proof (rule ccontr)
    assume "g \<noteq> 1"
    then have "g \<in> {2..<r}" using \<open>g \<le> r\<close> \<open>g \<noteq> 0\<close> \<open>g \<noteq> r\<close> by simp
    then show False using assms(1) gr by (auto simp: prime_nat_def)
  qed
  then have "gcd (int r) a = 1" using g by simp
  then show ?thesis by (simp add: coprime_iff_gcd_eq_1)
qed

lemma coprime_not_dvd:
  assumes "2 \<le> r" "coprime (int r) a"
  shows "\<not> int r dvd a"
proof
  assume "int r dvd a"
  then have "is_unit (int r)" using assms(2) by (auto simp: coprime_def)
  then show False using assms(1) by simp
qed

text \<open>
  Claim C2, as stated for every prime \<open>r\<close>, fails at \<open>r = 2\<close>: for \<open>N = 2\<close>, \<open>p = 1\<close>
  (so \<open>q = 3\<close>, \<open>N - p = 1\<close>) the prime 2 does not divide \<open>p q (N - p) = 3\<close>, the
  discriminant is \<open>2^12 3^6 2^4\<close> with valuation 16, and four times the valuation
  of \<open>N\<close> is 4. The constant \<open>2^12\<close> of the closed form adds 12.
\<close>

theorem ord_p_discriminant_two_counterexample:
  "prime_nat 2 \<and> (1::int) \<le> 2 \<and> (0::int) < 1 \<and> (1::int) < 2 * 2
   \<and> \<not> int 2 dvd 1 * (2 * 2 - 1) * (2 - 1)
   \<and> ord_p 2 (int 2) = Some (Inr (Finite 1))
   \<and> ord_p (compute_discriminant [0, 1, - 1, 2 * 2 - 1, - (2 * 2 - 1)]) (int 2)
       = Some (Inr (Finite 16))
   \<and> (16::nat) \<noteq> 4 * 1"
proof -
  have p2: "prime_nat 2" by code_simp
  have nd: "\<not> int 2 dvd 1 * (2 * 2 - 1) * (2 - 1)" by simp
  have vN: "ord_p 2 (int 2) = Some (Inr (Finite 1))" by code_simp
  have d: "compute_discriminant [0, 1, - 1, 2 * 2 - 1, - (2 * 2 - 1)] = 47775744"
    by (simp add: compute_discriminant_five)
  have vD: "ord_p 47775744 (int 2) = Some (Inr (Finite 16))" by code_simp
  show ?thesis unfolding d using p2 nd vN vD by simp
qed

text \<open>
  Claim C2, amended. For every \<open>N \<ge> 1\<close>, every \<open>p\<close> with \<open>0 < p < 2N\<close> (\<open>q = 2N - p\<close>) and
  every prime \<open>r > 2\<close> that does not divide \<open>p q (N - p)\<close>, the valuation at \<open>r\<close> of the
  discriminant of \<open>0, p, -p, q, -q\<close> is a finite count, and it is exactly four times
  the valuation of \<open>N\<close> at \<open>r\<close>.
\<close>

theorem ord_p_discriminant_odd_prime:
  fixes N p :: int and r :: nat
  assumes "prime_nat r" and "2 < r"
    and "1 \<le> N" and "0 < p" and "p < 2 * N"
    and "\<not> int r dvd p * (2 * N - p) * (N - p)"
  shows "\<exists>k. ord_p N (int r) = Some (Inr (Finite k))
          \<and> ord_p (compute_discriminant [0, p, - p, 2 * N - p, - (2 * N - p)]) (int r)
              = Some (Inr (Finite (4 * k)))"
proof -
  have r2: "2 \<le> int r" using assms(2) by simp
  have N0: "N \<noteq> 0" using assms(3) by simp
  obtain k m where N: "N = int r ^ k * m" and m: "\<not> int r dvd m"
    using power_decomp [OF r2 N0] by blast
  define c where "c = 2 ^ 12 * p ^ 6 * (2 * N - p) ^ 6 * (N - p) ^ 4 * m ^ 4"
  have np: "\<not> int r dvd p" and nq: "\<not> int r dvd (2 * N - p)" and nd: "\<not> int r dvd (N - p)"
    using assms(6) by (auto simp: dvd_mult dvd_mult2)
  have "\<not> int r dvd 2"
  proof
    assume "int r dvd 2"
    then have "r dvd 2" by (metis int_dvd_int_iff of_nat_numeral)
    then have "r \<le> 2" by (auto intro: dvd_imp_le)
    with assms(2) show False by simp
  qed
  then have c2: "coprime (int r) 2" by (rule prime_nat_coprime [OF assms(1)])
  have cs: "coprime (int r) p" "coprime (int r) (2 * N - p)" "coprime (int r) (N - p)"
    "coprime (int r) m"
    using np nq nd m by (auto intro: prime_nat_coprime [OF assms(1)])
  have "coprime (int r) c"
    by (simp only: c_def coprime_mult_right_iff coprime_power_right_iff) (use c2 cs in blast)
  then have nc: "\<not> int r dvd c" using assms(2) by (auto intro: coprime_not_dvd)
  have "compute_discriminant [0, p, - p, 2 * N - p, - (2 * N - p)]
          = 2 ^ 12 * p ^ 6 * (2 * N - p) ^ 6 * (N - p) ^ 4 * N ^ 4"
    using discriminant_mirror_roots [of N p] by (simp add: mirror_roots_def)
  also have "N ^ 4 = int r ^ (4 * k) * m ^ 4"
    unfolding N by (simp add: power_mult_distrib power_mult [symmetric] mult.commute)
  finally have disc: "compute_discriminant [0, p, - p, 2 * N - p, - (2 * N - p)]
          = int r ^ (4 * k) * c"
    by (simp add: c_def)
  have c0: "c \<noteq> 0" using nc by auto
  have l1: "ord_loop N (int r) 0 = Some (Inr k)"
    unfolding N using ord_loop_power [OF r2 m, of k 0] by simp
  have l2: "ord_loop (int r ^ (4 * k) * c) (int r) 0 = Some (Inr (4 * k))"
    using ord_loop_power [OF r2 nc, of "4 * k" 0] by simp
  have "ord_p N (int r) = Some (Inr (Finite k))"
    using N0 l1 by (simp add: ord_p_def)
  moreover have "ord_p (int r ^ (4 * k) * c) (int r) = Some (Inr (Finite (4 * k)))"
    using c0 r2 l2 by (simp add: ord_p_def)
  ultimately show ?thesis unfolding disc by blast
qed

theorem ord_p_discriminant_odd_prime_witness:
  "prime_nat 7 \<and> (2::nat) < 7 \<and> (1::int) \<le> 49 \<and> (0::int) < 3 \<and> (3::int) < 2 * 49
   \<and> \<not> int 7 dvd 3 * (2 * 49 - 3) * (49 - 3)
   \<and> ord_p 49 (int 7) = Some (Inr (Finite 2))
   \<and> ord_p (compute_discriminant [0, 3, - 3, 2 * 49 - 3, - (2 * 49 - 3)]) (int 7)
       = Some (Inr (Finite (4 * 2)))"
proof -
  have p7: "prime_nat 7" by code_simp
  have nd: "\<not> int 7 dvd 3 * (2 * 49 - 3) * (49 - 3)" by simp
  have v: "ord_p 49 (int 7) = Some (Inr (Finite 2))" by code_simp
  have "\<exists>k. ord_p 49 (int 7) = Some (Inr (Finite k))
          \<and> ord_p (compute_discriminant [0, 3, - 3, 2 * 49 - 3, - (2 * 49 - 3)]) (int 7)
              = Some (Inr (Finite (4 * k)))"
    by (rule ord_p_discriminant_odd_prime [OF p7 _ _ _ _ nd]) simp_all
  then obtain k where k: "ord_p 49 (int 7) = Some (Inr (Finite k))"
    and kd: "ord_p (compute_discriminant [0, 3, - 3, 2 * 49 - 3, - (2 * 49 - 3)]) (int 7)
       = Some (Inr (Finite (4 * k)))"
    by (elim exE conjE)
  from k v have "k = 2" by simp
  with kd have "ord_p (compute_discriminant [0, 3, - 3, 2 * 49 - 3, - (2 * 49 - 3)]) (int 7)
       = Some (Inr (Finite (4 * 2)))" by simp
  with p7 nd v show ?thesis by simp
qed

end
